theory Spec2Isabelle
  imports Complex_Main "HOL-Library.Word"
begin

unbundle bit_operations_syntax

section \<open>Bytes, hexadecimal text and formatting\<close>

text \<open>
  Go strings and byte slices are sequences of bytes: raw bytes on the wire are modelled
  as \<open>char list\<close> (so that the literals of the source can be written as they are), the
  numeric bytes that \<open>hex.DecodeString\<close> produces and the \<open>uint8\<close> values of the
  registers as \<open>8 word\<close>.
\<close>

type_synonym bytes = string
type_synonym u8 = "8 word"
type_synonym u16 = "16 word"

text \<open>\<open>encoding/hex\<close>: \<open>fromHexChar\<close> accepts the digits and both cases of a..f.\<close>

datatype hex_error = InvalidByteError char | ErrLength

definition fromHexChar :: "char \<Rightarrow> nat option" where
  "fromHexChar c =
     (let n = (of_char c :: nat) in
      if 48 \<le> n \<and> n \<le> 57 then Some (n - 48)
      else if 97 \<le> n \<and> n \<le> 102 then Some (n - 97 + 10)
      else if 65 \<le> n \<and> n \<le> 70 then Some (n - 65 + 10)
      else None)"

text \<open>
  \<open>hex.DecodeString\<close>: pairs of digits from the left, the first bad character is
  reported; a trailing single digit is \<open>ErrLength\<close>. The bytes decoded before an error
  are dropped by every caller in the driver, so the model returns the error alone.
\<close>

fun DecodeString :: "bytes \<Rightarrow> hex_error + u8 list" where
  "DecodeString [] = Inr []"
| "DecodeString [c] =
     (case fromHexChar c of None \<Rightarrow> Inl (InvalidByteError c) | Some _ \<Rightarrow> Inl ErrLength)"
| "DecodeString (p # q # rest) =
     (case fromHexChar p of
        None \<Rightarrow> Inl (InvalidByteError p)
      | Some a \<Rightarrow>
          (case fromHexChar q of
             None \<Rightarrow> Inl (InvalidByteError q)
           | Some b \<Rightarrow>
               (case DecodeString rest of
                  Inl e \<Rightarrow> Inl e
                | Inr bs \<Rightarrow> Inr (of_nat (a * 16 + b) # bs))))"

text \<open>\<open>fmt.Sprintf("%0wX", n)\<close> for a non-negative \<open>n\<close>: upper-case digits, padded
  with zeros to the width \<open>w\<close>, longer when the number needs more digits.\<close>

definition hexdigit :: "nat \<Rightarrow> char" where
  "hexdigit d = ''0123456789ABCDEF'' ! d"

fun hexdigits :: "nat \<Rightarrow> string" where
  "hexdigits n =
     (if n < 16 then [hexdigit n] else hexdigits (n div 16) @ [hexdigit (n mod 16)])"

declare hexdigits.simps [simp del]

definition fmtX :: "nat \<Rightarrow> nat \<Rightarrow> string" where
  "fmtX w n = (let ds = hexdigits n in replicate (w - length ds) (CHR ''0'') @ ds)"

text \<open>\<open>binary.BigEndian.Uint16\<close> on the decoded length bytes, \<open>None\<close> where Go panics
  (fewer than two bytes).\<close>

fun Uint16 :: "u8 list \<Rightarrow> u16 option" where
  "Uint16 (b0 # b1 # _) = Some (push_bit 8 (ucast b0) OR ucast b1)"
| "Uint16 _ = None"

lemma hexdigit_0: "hexdigit 0 = CHR ''0''" by (simp add: hexdigit_def)

lemma replicate_unfold: "replicate (numeral k) c = c # replicate (pred_numeral k) c"
  using replicate_Suc [of "pred_numeral k" c] by (simp only: numeral_eq_Suc)

lemma fromHexChar_hexdigit: "d < 16 \<Longrightarrow> fromHexChar (hexdigit d) = Some d"
proof -
  assume "d < 16"
  then have "d \<in> {0,1,2,3,4,5,6,7,8,9,10,11,12,13,14,15}" by (simp; arith)
  then show ?thesis
    by (auto simp: fromHexChar_def hexdigit_def)
qed

lemma fmtX4:
  assumes "n < 65536"
  shows "fmtX 4 n =
    [hexdigit (n div 4096), hexdigit (n div 256 mod 16), hexdigit (n div 16 mod 16),
     hexdigit (n mod 16)]"
proof -
  have b: "n div 16 div 16 = n div 256" "n div 256 div 16 = n div 4096"
    by (simp_all add: div_mult2_eq [symmetric])
  note h = hexdigits.simps [of n] hexdigits.simps [of "n div 16"]
    hexdigits.simps [of "n div 256"] hexdigits.simps [of "n div 4096"]
  consider "n < 16" | "16 \<le> n" "n < 256" | "256 \<le> n" "n < 4096" | "4096 \<le> n"
    by linarith
  then show ?thesis
  proof cases
    case 1
    then show ?thesis
      by (simp add: fmtX_def h(1) hexdigit_0 replicate_unfold)
  next
    case 2
    then have "n div 16 < 16" "n div 256 = 0" "n div 4096 = 0"
      by simp_all
    with 2 show ?thesis
      by (simp add: fmtX_def h(1,2) hexdigit_0 replicate_unfold)
  next
    case 3
    then have a: "\<not> n div 16 < 16" "n div 256 < 16" "n div 4096 = 0"
      by simp_all
    from 3 a b show ?thesis
      by (simp add: fmtX_def h(1,2,3) hexdigit_0 replicate_unfold)
  next
    case 4
    with assms have a: "\<not> n < 16" "\<not> n div 16 < 16" "\<not> n div 256 < 16" "n div 4096 < 16"
      by simp_all
    from a b show ?thesis
      by (simp add: fmtX_def h hexdigit_0)
  qed
qed

lemma Uint16_unat:
  "unat (push_bit 8 (ucast (b0 :: u8)) OR ucast (b1 :: u8) :: u16) = unat b0 * 256 + unat b1"
proof -
  have d: "push_bit 8 (ucast b0 :: u16) AND ucast b1 = 0"
    by (rule bit_word_eqI) (auto simp: bit_simps dest: bit_imp_le_length)
  have "push_bit 8 (ucast b0 :: u16) OR ucast b1 = push_bit 8 (ucast b0) + ucast b1"
    by (rule disjunctive_add_eq_or [symmetric]) (rule d)
  moreover have lt: "unat b0 < 256" "unat b1 < 256"
    using unsigned_less [of b0, where ?'a = nat] unsigned_less [of b1, where ?'a = nat]
    by simp_all
  moreover have "unat (ucast b0 :: u16) = unat b0" "unat (ucast b1 :: u16) = unat b1"
    using lt by (simp_all add: unsigned_ucast_eq take_bit_nat_eq_self)
  ultimately show ?thesis
    by (simp add: push_bit_eq_mult unat_word_ariths)
qed

section \<open>The transport\<close>

text \<open>
  The serial port is the \<open>ByteStream\<close> capability of the driver. It is modelled as a
  script: the bytes the device will still deliver (\<open>pending\<close>), whether writes succeed
  (\<open>writable\<close>), the state of \<open>readMutex\<close> (\<open>locked\<close>) and the log of what was done
  with the port and the mutex (\<open>trace\<close>, oldest first). When the script is exhausted the
  stream is closed: a read then fails with \<open>io.EOF\<close>.
\<close>

datatype io_error = EOF | ErrUnexpectedEOF | PortError

datatype event = EvWrite bytes | EvRead nat | EvLock | EvUnlock

record port =
  pending :: bytes
  writable :: bool
  locked :: bool
  trace :: "event list"

definition log_event :: "event \<Rightarrow> port \<Rightarrow> port" where
  "log_event e p = p\<lparr>trace := trace p @ [e]\<rparr>"

text \<open>\<open>serialPort.Write\<close>.\<close>

definition Write :: "port \<Rightarrow> bytes \<Rightarrow> io_error option \<times> port" where
  "Write p bs =
     (if writable p then (None, log_event (EvWrite bs) p)
      else (Some PortError, log_event (EvWrite bs) p))"

text \<open>
  \<open>io.ReadFull(serialPort, buf)\<close> with \<open>len(buf) = n\<close> and \<open>buf\<close> holding \<open>old\<close>:
  all \<open>n\<close> bytes, or whatever is left (written over the front of the buffer) with
  \<open>io.ErrUnexpectedEOF\<close>, or \<open>io.EOF\<close> when nothing is left. An empty buffer is
  filled without touching the port.
\<close>

definition ReadFull :: "port \<Rightarrow> nat \<Rightarrow> bytes \<Rightarrow> bytes \<times> io_error option \<times> port" where
  "ReadFull p n old =
     (if n = 0 then (old, None, p)
      else if n \<le> length (pending p) then
        (take n (pending p), None, log_event (EvRead n) (p\<lparr>pending := drop n (pending p)\<rparr>))
      else
        (pending p @ drop (length (pending p)) old,
         Some (if pending p = [] then EOF else ErrUnexpectedEOF),
         log_event (EvRead n) (p\<lparr>pending := []\<rparr>)))"

text \<open>
  \<open>serialPort.Read(buf)\<close> with \<open>len(buf) = n\<close>: one read, which returns what is there,
  at most \<open>n\<close> bytes, and no error unless the stream is closed.
\<close>

definition Read :: "port \<Rightarrow> nat \<Rightarrow> bytes \<times> io_error option \<times> port" where
  "Read p n =
     (if pending p = [] then ([], Some EOF, log_event (EvRead n) p)
      else (take n (pending p), None, log_event (EvRead n) (p\<lparr>pending := drop n (pending p)\<rparr>)))"

text \<open>
  \<open>readMutex.Lock()\<close> and \<open>Unlock()\<close>. A \<open>sync.Mutex\<close> is not reentrant: \<open>Lock\<close> on
  a held mutex waits for an \<open>Unlock\<close>, and in the model of one thread of control no
  one else will call it, so the caller never returns (\<open>None\<close>).
\<close>

definition Lock :: "port \<Rightarrow> port option" where
  "Lock p = (if locked p then None else Some (log_event EvLock (p\<lparr>locked := True\<rparr>)))"

definition Unlock :: "port \<Rightarrow> port" where
  "Unlock p = log_event EvUnlock (p\<lparr>locked := False\<rparr>)"

section \<open>Errors and results\<close>

text \<open>
  Every \<open>fmt.Errorf\<close> of the driver is a constructor, wrapping its cause; \<open>Panic\<close>
  is a run-time panic (an index out of range), and \<open>UnspecifiedConversion\<close> marks a
  conversion whose result Go leaves to the implementation. A call has three outcomes:
  a value, an error, or it never returns (\<open>Hang\<close>: it waits for a mutex that nobody
  releases).
\<close>

datatype error =
    WriteFailed io_error
  | ReadHeaderFailed io_error
  | DecodeLengthFailed hex_error
  | ReadDataFailed io_error
  | ReadCrcFailed io_error
  | ReadResponseFailed error
  | RegisterReadOnly
  | WriteRegisterFailed error
  | ReadRegisterFailed error
  | InvalidResponseLength
  | DecodeRegisterFailed hex_error
  | SetNETDFactorFailed error
  | SetNETDPixelYFailed error
  | SetNETDPixelXFailed error
  | SetNETDConfigFailed error
  | GetCameraTypeFailed error
  | InvalidFrameRate
  | StartStreamFailed error
  | Panic
  | UnspecifiedConversion

datatype 'a result = Ok 'a | Err error | Hang

section \<open>Frame Codec: readPacket\<close>

definition marker :: bytes where
  "marker = ''   #''"

text \<open>
  The header loop of \<open>readPacket\<close>:
  \<^verbatim>\<open>for ; string(header)[:4] != "   #"; _, err = io.ReadFull(m.serialPort, header) {
      if err != nil { return ... }
  }\<close>
  The condition is tested first, on the buffer as the last read left it, and the error of
  a read is looked at only when the condition holds again.
\<close>

function header_loop :: "bytes \<Rightarrow> io_error option \<Rightarrow> port \<Rightarrow> (error + bytes) \<times> port" where
  "header_loop header err p =
     (if take 4 header \<noteq> marker then
        (case err of
           Some e \<Rightarrow> (Inl (ReadHeaderFailed e), p)
         | None \<Rightarrow>
             (case ReadFull p 12 header of
                (header', err', p') \<Rightarrow> header_loop header' err' p'))
      else (Inr header, p))"
  by pat_completeness auto
termination
  by (relation "measure (\<lambda>(header, err, p).
        case err of Some _ \<Rightarrow> 0 | None \<Rightarrow> Suc (length (pending p)))")
     (auto simp: ReadFull_def log_event_def split: if_splits option.splits)

declare header_loop.simps [simp del]

text \<open>
  \<open>readPacket\<close>. The length field is decoded from hex, read big-endian as a
  \<open>uint16\<close>, and 8 is subtracted in \<open>uint16\<close> arithmetic. The four trailer bytes are
  read with a plain \<open>Read\<close> and never looked at.
\<close>

definition readPacket :: "port \<Rightarrow> (error + bytes \<times> bytes) \<times> port" where
  "readPacket p =
     (case header_loop (replicate 12 (CHR 0x00)) None p of
        (Inl e, p1) \<Rightarrow> (Inl e, p1)
      | (Inr header, p1) \<Rightarrow>
          (let header' = drop 4 header;
               packetType = drop 4 header'
           in case DecodeString (take 4 header') of
                Inl e \<Rightarrow> (Inl (DecodeLengthFailed e), p1)
              | Inr len \<Rightarrow>
                  (case Uint16 len of
                     None \<Rightarrow> (Inl Panic, p1)
                   | Some l \<Rightarrow>
                       (let dataLength = unat (l - 8) in
                        case ReadFull p1 dataLength (replicate dataLength (CHR 0x00)) of
                          (data, Some e, p2) \<Rightarrow> (Inl (ReadDataFailed e), p2)
                        | (data, None, p2) \<Rightarrow>
                            (case Read p2 4 of
                               (crc, Some e, p3) \<Rightarrow> (Inl (ReadCrcFailed e), p3)
                             | (crc, None, p3) \<Rightarrow> (Inr (packetType, data), p3))))))"

lemma ReadFull_pending:
  "ReadFull p n old = (buf, err, p') \<Longrightarrow> length (pending p') \<le> length (pending p)"
  by (auto simp: ReadFull_def log_event_def split: if_splits)

lemma Read_pending:
  "Read p n = (buf, err, p') \<Longrightarrow> length (pending p') \<le> length (pending p)"
  by (auto simp: Read_def log_event_def split: if_splits)

lemma header_loop_consumes:
  "header_loop header err p = (Inr header', p') \<Longrightarrow> take 4 header \<noteq> marker \<Longrightarrow>
   length (pending p') < length (pending p)"
proof (induction header err p rule: header_loop.induct)
  case (1 header err p)
  from "1.prems" obtain h1 e1 p1 where
    none: "err = None" and rf: "ReadFull p 12 header = (h1, e1, p1)"
    and rec: "header_loop h1 e1 p1 = (Inr header', p')"
    by (cases err; cases "ReadFull p 12 header")
       (auto simp: header_loop.simps [of header] split: if_splits)
  show ?case
  proof (cases "take 4 h1 = marker")
    case True
    with rec have eq: "p' = p1" "header' = h1"
      by (simp_all add: header_loop.simps [of h1])
    from rf True "1.prems"(2) have "length (pending p1) < length (pending p)"
      by (auto simp: ReadFull_def log_event_def split: if_splits)
    with eq show ?thesis by simp
  next
    case False
    from "1.IH" [OF "1.prems"(2) none rf [symmetric] refl rec False]
    have "length (pending p') < length (pending p1)" .
    moreover from rf have "length (pending p1) \<le> length (pending p)"
      by (rule ReadFull_pending)
    ultimately show ?thesis by simp
  qed
qed

lemma readPacket_consumes:
  assumes "readPacket p = (Inr x, p')"
  shows "length (pending p') < length (pending p)"
proof -
  from assms obtain header p1 where
    hl: "header_loop (replicate 12 (CHR 0x00)) None p = (Inr header, p1)"
    by (auto simp: readPacket_def split: prod.splits sum.splits)
  have "take 4 (replicate 12 (CHR 0x00)) \<noteq> marker"
    by (simp add: marker_def eval_nat_numeral)
  with hl have lt: "length (pending p1) < length (pending p)"
    by (rule header_loop_consumes)
  from assms hl have "length (pending p') \<le> length (pending p1)"
    by (auto simp: readPacket_def Let_def
             split: prod.splits sum.splits option.splits
             dest!: ReadFull_pending Read_pending)
  with lt show ?thesis by simp
qed

text \<open>
  The frame the decoder finds in a stream, in the words of the wire format: the header
  loop reads blocks of 12 bytes and drops every full block that does not start with the
  marker (\<open>skip_blocks\<close>); what follows is the marker, four hex digits of length, the
  type tag, the payload and the trailer. The payload length is the length field minus 8
  in 16-bit arithmetic.
\<close>

function skip_blocks :: "bytes \<Rightarrow> bytes" where
  "skip_blocks s = (if 12 \<le> length s \<and> take 4 s \<noteq> marker then skip_blocks (drop 12 s) else s)"
  by pat_completeness auto
termination
  by (relation "measure length") auto

declare skip_blocks.simps [simp del]

definition frame_of_stream :: "bytes \<Rightarrow> (bytes \<times> bytes \<times> bytes) option" where
  "frame_of_stream bs =
     (let s = skip_blocks bs in
      if length s < 12 then None
      else
        (case DecodeString (take 4 (drop 4 s)) of
           Inl _ \<Rightarrow> None
         | Inr l \<Rightarrow>
             (case Uint16 l of
                None \<Rightarrow> None
              | Some w \<Rightarrow>
                  (let n = unat (w - 8) in
                   if length s \<le> 12 + n then None
                   else Some (take 4 (drop 8 s), take n (drop 12 s), drop (12 + n + 4) s)))))"

lemma skip_blocks_marker:
  "12 \<le> length (skip_blocks s) \<Longrightarrow> take 4 (skip_blocks s) = marker"
  by (induction s rule: skip_blocks.induct)
     (subst (asm) (2) skip_blocks.simps, subst skip_blocks.simps, auto split: if_splits)

lemma header_loop_found:
  "take 4 h \<noteq> marker \<Longrightarrow> 12 \<le> length (skip_blocks (pending p)) \<Longrightarrow>
   fst (header_loop h None p) = Inr (take 12 (skip_blocks (pending p))) \<and>
   pending (snd (header_loop h None p)) = drop 12 (skip_blocks (pending p))"
proof (induction "length (pending p)" arbitrary: h p rule: less_induct)
  case less
  from less.prems(2) have len: "12 \<le> length (pending p)"
    by (subst (asm) skip_blocks.simps) (auto split: if_splits)
  define p1 where "p1 = log_event (EvRead 12) (p\<lparr>pending := drop 12 (pending p)\<rparr>)"
  have rf: "ReadFull p 12 h = (take 12 (pending p), None, p1)"
    using len by (simp add: ReadFull_def p1_def)
  have step: "header_loop h None p = header_loop (take 12 (pending p)) None p1"
    using less.prems(1) rf by (subst header_loop.simps) simp
  show ?case
  proof (cases "take 4 (pending p) = marker")
    case True
    then have "skip_blocks (pending p) = pending p"
      by (subst skip_blocks.simps) simp
    moreover have "header_loop (take 12 (pending p)) None p1 = (Inr (take 12 (pending p)), p1)"
      using True by (subst header_loop.simps) simp
    ultimately show ?thesis
      using step by (simp add: p1_def log_event_def)
  next
    case False
    then have sk: "skip_blocks (pending p) = skip_blocks (drop 12 (pending p))"
      using len by (subst skip_blocks.simps) simp
    have pp: "pending p1 = drop 12 (pending p)"
      by (simp add: p1_def log_event_def)
    have "fst (header_loop (take 12 (pending p)) None p1) = Inr (take 12 (skip_blocks (pending p1))) \<and>
      pending (snd (header_loop (take 12 (pending p)) None p1)) = drop 12 (skip_blocks (pending p1))"
      using less.hyps [of p1 "take 12 (pending p)"] len False less.prems(2) sk pp
      by simp
    then show ?thesis
      using step sk pp by simp
  qed
qed

lemma header_loop_short:
  "take 4 h \<noteq> marker \<Longrightarrow> length (skip_blocks (pending p)) < 12 \<Longrightarrow>
   isl (fst (header_loop h None p)) \<or> pending (snd (header_loop h None p)) = []"
proof (induction "length (pending p)" arbitrary: h p rule: less_induct)
  case less
  show ?case
  proof (cases "12 \<le> length (pending p)")
    case True
    with less.prems(2) have nm: "take 4 (pending p) \<noteq> marker"
      by (subst (asm) skip_blocks.simps) (auto split: if_splits)
    define p1 where "p1 = log_event (EvRead 12) (p\<lparr>pending := drop 12 (pending p)\<rparr>)"
    have rf: "ReadFull p 12 h = (take 12 (pending p), None, p1)"
      using True by (simp add: ReadFull_def p1_def)
    have step: "header_loop h None p = header_loop (take 12 (pending p)) None p1"
      using less.prems(1) rf by (subst header_loop.simps) simp
    have sk: "skip_blocks (pending p) = skip_blocks (drop 12 (pending p))"
      using True nm by (subst skip_blocks.simps) simp
    have pp: "pending p1 = drop 12 (pending p)"
      by (simp add: p1_def log_event_def)
    have "isl (fst (header_loop (take 12 (pending p)) None p1)) \<or>
          pending (snd (header_loop (take 12 (pending p)) None p1)) = []"
      using less.hyps [of p1 "take 12 (pending p)"] True nm less.prems(2) sk pp
      by simp
    then show ?thesis using step by simp
  next
    case False
    define h1 where "h1 = pending p @ drop (length (pending p)) h"
    define e1 where "e1 = (if pending p = [] then EOF else ErrUnexpectedEOF)"
    define p1 where "p1 = log_event (EvRead 12) (p\<lparr>pending := []\<rparr>)"
    have rf: "ReadFull p 12 h = (h1, Some e1, p1)"
      using False by (simp add: ReadFull_def p1_def h1_def e1_def)
    have step: "header_loop h None p = header_loop h1 (Some e1) p1"
      using less.prems(1) rf by (subst header_loop.simps) simp
    have "header_loop h1 (Some e1) p1 = (Inl (ReadHeaderFailed e1), p1) \<or>
          header_loop h1 (Some e1) p1 = (Inr h1, p1)"
      by (simp add: header_loop.simps [of h1 "Some e1"])
    moreover have "pending p1 = []" by (simp add: p1_def log_event_def)
    ultimately show ?thesis using step by auto
  qed
qed


lemma no_marker_init: "take 4 (replicate 12 (CHR 0x00)) \<noteq> marker"
  by (simp add: marker_def eval_nat_numeral)

lemma readPacket_frame:
  "(case frame_of_stream (pending p) of
      Some (packetType, data, rest) \<Rightarrow>
        fst (readPacket p) = Inr (packetType, data) \<and> pending (snd (readPacket p)) = rest
    | None \<Rightarrow> isl (fst (readPacket p)))"
proof (cases "12 \<le> length (skip_blocks (pending p))")
  case True
  define s where "s = skip_blocks (pending p)"
  obtain r p1 where hl: "header_loop (replicate 12 (CHR 0x00)) None p = (r, p1)"
    by (cases "header_loop (replicate 12 (CHR 0x00)) None p")
  from header_loop_found [OF no_marker_init True] hl
  have r: "r = Inr (take 12 s)" and p1: "pending p1 = drop 12 s"
    by (simp_all add: s_def)
  have len: "12 \<le> length s" using True by (simp add: s_def)
  have h4: "take 4 (drop 4 (take 12 s)) = take 4 (drop 4 s)"
    by (simp add: drop_take)
  have h8: "drop 4 (drop 4 (take 12 s)) = take 4 (drop 8 s)"
    by (simp add: drop_take)
  show ?thesis
    using hl r p1 len h4 h8
    by (auto simp: frame_of_stream_def readPacket_def Let_def s_def [symmetric]
          ReadFull_def Read_def log_event_def take_drop
          split: sum.splits option.splits prod.splits)
next
  case False
  then have "frame_of_stream (pending p) = None"
    by (simp add: frame_of_stream_def Let_def)
  moreover have "isl (fst (readPacket p))"
  proof -
    obtain r p1 where hl: "header_loop (replicate 12 (CHR 0x00)) None p = (r, p1)"
      by (cases "header_loop (replicate 12 (CHR 0x00)) None p")
    from header_loop_short [OF no_marker_init, of p] False hl
    have "isl r \<or> pending p1 = []" by simp
    then show ?thesis
      using hl
      by (auto simp: readPacket_def Let_def ReadFull_def Read_def log_event_def
            split: sum.splits option.splits prod.splits if_splits)
  qed
  ultimately show ?thesis by simp
qed

section \<open>Transaction Engine\<close>

text \<open>
  The response loop of \<open>sendCommand\<close>:
  \<^verbatim>\<open>for packetType := ""; packetType != cmdType; packetType, data, err = m.readPacket() {
      if err != nil { return []byte{}, fmt.Errorf("failed to read response: %w", err) }
  }
  return\<close>
  \<open>readPacket\<close> returns the empty type tag and empty data with an error.
\<close>

function sendCommand_loop ::
  "bytes \<Rightarrow> bytes \<Rightarrow> bytes \<Rightarrow> error option \<Rightarrow> port \<Rightarrow> (error + bytes) \<times> port" where
  "sendCommand_loop cmdType packetType data err p =
     (if packetType \<noteq> cmdType then
        (case err of
           Some e \<Rightarrow> (Inl (ReadResponseFailed e), p)
         | None \<Rightarrow>
             (case readPacket p of
                (Inl e, p') \<Rightarrow> sendCommand_loop cmdType [] [] (Some e) p'
              | (Inr (packetType', data'), p') \<Rightarrow>
                  sendCommand_loop cmdType packetType' data' None p'))
      else (case err of None \<Rightarrow> Inr data | Some e \<Rightarrow> Inl e, p))"
  by pat_completeness auto
termination
  by (relation "measure (\<lambda>(cmdType, packetType, data, err, p).
        case err of Some _ \<Rightarrow> 0 | None \<Rightarrow> Suc (length (pending p)))")
     (auto dest: readPacket_consumes [OF sym])

declare sendCommand_loop.simps [simp del]

text \<open>The frame \<open>sendCommand\<close> writes: \<open>fmt.Sprintf("   #%04X%s", len(cmd), cmd)\<close>.\<close>

definition command_frame :: "bytes \<Rightarrow> bytes" where
  "command_frame cmd = ''   #'' @ fmtX 4 (length cmd) @ cmd"

text \<open>
  \<open>sendCommand\<close>: \<open>cmd[0:4]\<close> panics on a command shorter than four bytes; the frame
  is written, then the mutex is taken, and the deferred \<open>Unlock\<close> runs on every return
  after that.
\<close>

definition sendCommand :: "bytes \<Rightarrow> port \<Rightarrow> bytes result \<times> port" where
  "sendCommand cmd p =
     (if length cmd < 4 then (Err Panic, p)
      else
        (let cmdType = take 4 cmd in
         case Write p (command_frame cmd) of
           (Some e, p1) \<Rightarrow> (Err (WriteFailed e), p1)
         | (None, p1) \<Rightarrow>
             (case Lock p1 of
                None \<Rightarrow> (Hang, p1)
              | Some p2 \<Rightarrow>
                  (case sendCommand_loop cmdType [] [] None p2 of
                     (Inl e, p3) \<Rightarrow> (Err e, Unlock p3)
                   | (Inr data, p3) \<Rightarrow> (Ok data, Unlock p3)))))"

section \<open>Register Catalog\<close>

record register =
  Address :: u8
  Length :: int
  ReadOnly :: bool

definition FRAME_MODE :: register where
  "FRAME_MODE = \<lparr>Address = 0xB1, Length = 1, ReadOnly = False\<rparr>"
definition FRAME_RATE :: register where
  "FRAME_RATE = \<lparr>Address = 0xB4, Length = 1, ReadOnly = False\<rparr>"
definition SENXOR_TYPE :: register where
  "SENXOR_TYPE = \<lparr>Address = 0xBA, Length = 1, ReadOnly = True\<rparr>"
definition NETD_CONFIG :: register where
  "NETD_CONFIG = \<lparr>Address = 0xD4, Length = 1, ReadOnly = False\<rparr>"
definition NETD_FACTOR :: register where
  "NETD_FACTOR = \<lparr>Address = 0xD5, Length = 1, ReadOnly = False\<rparr>"
definition NETD_PIXEL_X :: register where
  "NETD_PIXEL_X = \<lparr>Address = 0xD6, Length = 1, ReadOnly = False\<rparr>"
definition NETD_PIXEL_Y :: register where
  "NETD_PIXEL_Y = \<lparr>Address = 0xD7, Length = 1, ReadOnly = False\<rparr>"

definition CONTNIUOUS_STREAM :: u8 where
  "CONTNIUOUS_STREAM = 2"

definition cameraTypes :: "u8 \<rightharpoonup> string" where
  "cameraTypes = [0 \<mapsto> ''MI0801 non-MP'', 1 \<mapsto> ''MI0801'', 2 \<mapsto> ''MI0301'',
                  3 \<mapsto> ''MI0802'', 8 \<mapsto> ''panther'']"

text \<open>\<open>sensorSizes\<close>: \<open>image.Rect(0, 0, w, h)\<close> as the pair \<open>(w, h)\<close>.\<close>

definition sensorSizes :: "u8 \<rightharpoonup> nat \<times> nat" where
  "sensorSizes = [0 \<mapsto> (80, 62), 1 \<mapsto> (80, 62), 2 \<mapsto> (32, 32),
                  3 \<mapsto> (80, 62), 8 \<mapsto> (160, 120)]"

section \<open>Register access\<close>

text \<open>\<open>fmt.Sprintf("WREG%02X%02XXXXX", reg.Address, value)\<close> and
  \<open>fmt.Sprintf("RREG%02XXXXXXX", address)\<close>.\<close>

definition wreg_cmd :: "u8 \<Rightarrow> u8 \<Rightarrow> bytes" where
  "wreg_cmd a v = ''WREG'' @ fmtX 2 (unat a) @ fmtX 2 (unat v) @ ''XXXX''"

definition rreg_cmd :: "u8 \<Rightarrow> bytes" where
  "rreg_cmd a = ''RREG'' @ fmtX 2 (unat a) @ ''XXXXXX''"

definition writeRegister :: "register \<Rightarrow> u8 \<Rightarrow> port \<Rightarrow> unit result \<times> port" where
  "writeRegister reg v p =
     (if ReadOnly reg then (Err RegisterReadOnly, p)
      else
        (case sendCommand (wreg_cmd (Address reg) v) p of
           (Ok _, p') \<Rightarrow> (Ok (), p')
         | (Err e, p') \<Rightarrow> (Err (WriteRegisterFailed e), p')
         | (Hang, p') \<Rightarrow> (Hang, p')))"

text \<open>
  The loop of \<open>readRegister\<close>:
  \<^verbatim>\<open>for i := uint8(0); i < uint8(reg.Length); i++\<close>
  with the address \<open>reg.Address+i\<close> computed in \<open>uint8\<close>.
\<close>

lemma u8_less_Suc:
  fixes i n :: u8
  assumes "i < n"
  shows "unat n - unat (i + 1) < unat n - unat i"
proof -
  from assms have "unat i < unat n"
    by (simp add: word_less_nat_alt)
  moreover have "unat n < 256"
    using unsigned_less [of n, where ?'a = nat] by simp
  ultimately have "unat (i + 1) = unat i + 1"
    by (simp add: unat_word_ariths)
  with \<open>unat i < unat n\<close> show ?thesis by simp
qed

function readRegister_loop :: "register \<Rightarrow> u8 \<Rightarrow> bytes \<Rightarrow> port \<Rightarrow> bytes result \<times> port" where
  "readRegister_loop reg i responseData p =
     (if i < (of_int (Length reg) :: u8) then
        (case sendCommand (rreg_cmd (Address reg + i)) p of
           (Err e, p') \<Rightarrow> (Err (ReadRegisterFailed e), p')
         | (Hang, p') \<Rightarrow> (Hang, p')
         | (Ok response, p') \<Rightarrow>
             (if length response = 0 then (Err InvalidResponseLength, p')
              else readRegister_loop reg (i + 1) (responseData @ response) p'))
      else (Ok responseData, p))"
  by pat_completeness auto
termination
  by (relation "measure (\<lambda>(reg, i, responseData, p).
        unat (of_int (Length reg) :: u8) - unat i)")
     (auto intro: u8_less_Suc)

declare readRegister_loop.simps [simp del]

definition readRegister :: "register \<Rightarrow> port \<Rightarrow> u8 list result \<times> port" where
  "readRegister reg p =
     (case readRegister_loop reg 0 [] p of
        (Ok responseData, p') \<Rightarrow>
          (case DecodeString responseData of
             Inl e \<Rightarrow> (Err (DecodeRegisterFailed e), p')
           | Inr v \<Rightarrow> (Ok v, p'))
      | (Err e, p') \<Rightarrow> (Err e, p')
      | (Hang, p') \<Rightarrow> (Hang, p'))"

section \<open>Device Session: NETD\<close>

record NETDConfig =
  Enabled :: bool
  RowInFrame :: bool
  Factor :: u8
  X :: u8
  Y :: u8

text \<open>The byte \<open>netd_config\<close> that \<open>SetNETD\<close> composes: the test of \<open>RowInFrame\<close> is
  nested in the test of \<open>Enabled\<close>.\<close>

definition netd_config :: "NETDConfig \<Rightarrow> u8" where
  "netd_config netdConfig =
     (if Enabled netdConfig then
        (if RowInFrame netdConfig then (0x00 OR 0x01) OR 0x02 else 0x00 OR 0x01)
      else 0x00)"

definition SetNETD :: "NETDConfig \<Rightarrow> port \<Rightarrow> unit result \<times> port" where
  "SetNETD netdConfig p =
     (case writeRegister NETD_FACTOR (Factor netdConfig) p of
        (Err e, p1) \<Rightarrow> (Err (SetNETDFactorFailed e), p1)
      | (Hang, p1) \<Rightarrow> (Hang, p1)
      | (Ok _, p1) \<Rightarrow>
     (case writeRegister NETD_PIXEL_Y (Y netdConfig) p1 of
        (Err e, p2) \<Rightarrow> (Err (SetNETDPixelYFailed e), p2)
      | (Hang, p2) \<Rightarrow> (Hang, p2)
      | (Ok _, p2) \<Rightarrow>
     (case writeRegister NETD_PIXEL_X (X netdConfig) p2 of
        (Err e, p3) \<Rightarrow> (Err (SetNETDPixelXFailed e), p3)
      | (Hang, p3) \<Rightarrow> (Hang, p3)
      | (Ok _, p3) \<Rightarrow>
     (case writeRegister NETD_CONFIG (netd_config netdConfig) p3 of
        (Err e, p4) \<Rightarrow> (Err (SetNETDConfigFailed e), p4)
      | (Hang, p4) \<Rightarrow> (Hang, p4)
      | (Ok _, p4) \<Rightarrow> (Ok (), p4)))))"

section \<open>float64\<close>

text \<open>
  Go's \<open>float64\<close> is IEEE 754 binary64. A finite value is the rational number it
  stands for; the two zeros are one value (no division of the driver has a negative
  zero as divisor, and nothing else tells them apart). Every arithmetic result is the
  exact result rounded to the nearest representable value, ties to even
  (\<open>round64\<close>): 53 bits of mantissa, exponents of the least bit from -1074
  (subnormal numbers) to 971, overflow to infinity.
\<close>

datatype float64 = Finite rat | PosInf | NegInf | NaN

text \<open>Scaling by powers of two until the mantissa lies in \<open>[2^52, 2^53)\<close> or the
  exponent reaches the end of its range.\<close>

function norm_up :: "rat \<Rightarrow> int \<Rightarrow> rat \<times> int" where
  "norm_up m e = (if m < 2 ^ 52 \<and> - 1074 < e then norm_up (2 * m) (e - 1) else (m, e))"
  by pat_completeness auto
termination
  by (relation "measure (\<lambda>(m, e). nat (e + 1074))") auto

function norm_down :: "rat \<Rightarrow> int \<Rightarrow> rat \<times> int" where
  "norm_down m e = (if 2 ^ 53 \<le> m \<and> e < 971 then norm_down (m / 2) (e + 1) else (m, e))"
  by pat_completeness auto
termination
  by (relation "measure (\<lambda>(m, e). nat (971 - e))") auto

declare norm_up.simps [simp del] norm_down.simps [simp del]

text \<open>Rounding to the nearest integer, ties to the even one.\<close>

definition rne :: "rat \<Rightarrow> int" where
  "rne x =
     (let f = \<lfloor>x\<rfloor>; r = x - of_int f in
      if r < 1 / 2 then f else if 1 / 2 < r then f + 1 else if even f then f else f + 1)"

definition round_pos :: "rat \<Rightarrow> float64" where
  "round_pos x =
     (case norm_down x 0 of (m1, e1) \<Rightarrow>
      case norm_up m1 e1 of (m, e) \<Rightarrow>
        (let v = of_int (rne m) * 2 powi e in
         if 2 ^ 1024 \<le> v then PosInf else Finite v))"

definition fneg :: "float64 \<Rightarrow> float64" where
  "fneg a = (case a of Finite x \<Rightarrow> Finite (- x) | PosInf \<Rightarrow> NegInf | NegInf \<Rightarrow> PosInf
             | NaN \<Rightarrow> NaN)"

definition round64 :: "rat \<Rightarrow> float64" where
  "round64 x =
     (if x = 0 then Finite 0 else if 0 < x then round_pos x else fneg (round_pos (- x)))"

text \<open>Division \<open>a / b\<close>; a zero divisor is \<open>+0\<close>.\<close>

fun fdiv :: "float64 \<Rightarrow> float64 \<Rightarrow> float64" where
  "fdiv NaN _ = NaN"
| "fdiv _ NaN = NaN"
| "fdiv (Finite x) (Finite y) =
     (if y = 0 then (if x = 0 then NaN else if 0 < x then PosInf else NegInf)
      else round64 (x / y))"
| "fdiv (Finite x) _ = Finite 0"
| "fdiv PosInf (Finite y) = (if 0 \<le> y then PosInf else NegInf)"
| "fdiv NegInf (Finite y) = (if 0 \<le> y then NegInf else PosInf)"
| "fdiv _ _ = NaN"


text \<open>The comparisons \<open>a < b\<close> and \<open>a == b\<close>: false when an operand is NaN.\<close>

fun fless :: "float64 \<Rightarrow> float64 \<Rightarrow> bool" where
  "fless NaN _ = False"
| "fless _ NaN = False"
| "fless (Finite x) (Finite y) = (x < y)"
| "fless (Finite x) PosInf = True"
| "fless (Finite x) NegInf = False"
| "fless PosInf _ = False"
| "fless NegInf NegInf = False"
| "fless NegInf _ = True"

fun feq :: "float64 \<Rightarrow> float64 \<Rightarrow> bool" where
  "feq NaN _ = False"
| "feq _ NaN = False"
| "feq a b = (a = b)"

text \<open>\<open>math.Abs\<close> and \<open>math.Round\<close> (halves away from zero); both are exact.\<close>

definition Abs :: "float64 \<Rightarrow> float64" where
  "Abs a = (case a of Finite x \<Rightarrow> Finite \<bar>x\<bar> | PosInf \<Rightarrow> PosInf | NegInf \<Rightarrow> PosInf
            | NaN \<Rightarrow> NaN)"

definition Round :: "float64 \<Rightarrow> float64" where
  "Round a =
     (case a of
        Finite x \<Rightarrow> Finite (of_int (if 0 \<le> x then \<lfloor>x + 1 / 2\<rfloor> else - \<lfloor>- x + 1 / 2\<rfloor>))
      | _ \<Rightarrow> a)"

text \<open>
  Conversions. A float converted to an integer type loses its fraction (towards zero);
  when the value does not fit the type (and for NaN and the infinities) Go leaves the
  result to the implementation, and the model gives \<open>None\<close> rather than choose one.
  \<open>int\<close> is 64 bits wide. An integer converted to \<open>uint8\<close> is truncated to 8 bits;
  an integer converted to \<open>float64\<close> is rounded.
\<close>

definition trunc :: "rat \<Rightarrow> int" where
  "trunc x = (if 0 \<le> x then \<lfloor>x\<rfloor> else - \<lfloor>- x\<rfloor>)"

definition int_of_float :: "float64 \<Rightarrow> int option" where
  "int_of_float a =
     (case a of
        Finite x \<Rightarrow>
          (if - (2 ^ 63) \<le> trunc x \<and> trunc x < 2 ^ 63 then Some (trunc x) else None)
      | _ \<Rightarrow> None)"

definition uint8_of_float :: "float64 \<Rightarrow> u8 option" where
  "uint8_of_float a =
     (case a of
        Finite x \<Rightarrow> (if 0 \<le> trunc x \<and> trunc x < 256 then Some (word_of_int (trunc x)) else None)
      | _ \<Rightarrow> None)"

definition float_of_int :: "int \<Rightarrow> float64" where
  "float_of_int k = round64 (of_int k)"

section \<open>Device Session\<close>

text \<open>The struct \<open>MI48\<close>; its \<open>serialPort\<close> and \<open>readMutex\<close> are the \<open>port\<close> that
  every operation takes and returns.\<close>

record MI48 =
  CameraModel :: string
  SerialInfo :: string
  FirmwareVersion :: string
  MaxFPS :: float64
  cameraType :: u8

text \<open>\<open>getMaxFPS\<close>: the constants \<open>25.5\<close>, \<open>28.57\<close> and \<open>0.0\<close> as \<open>float64\<close>;
  \<open>cameraType[0]\<close> panics on an empty value.\<close>

definition getMaxFPS :: "port \<Rightarrow> float64 result \<times> port" where
  "getMaxFPS p =
     (case readRegister SENXOR_TYPE p of
        (Err e, p') \<Rightarrow> (Err (GetCameraTypeFailed e), p')
      | (Hang, p') \<Rightarrow> (Hang, p')
      | (Ok typeData, p') \<Rightarrow>
          (case typeData of
             [] \<Rightarrow> (Err Panic, p')
           | t # _ \<Rightarrow>
               (if t = 0 \<or> t = 1 then (Ok (round64 (51 / 2)), p')
                else if t = 2 then (Ok (round64 (2857 / 100)), p')
                else (Ok (Finite 0), p'))))"


text \<open>
  \<open>SetFramerate\<close> returns a rate and an error together. The guard is
  \<open>frameRate == 0 || frameRate > m.MaxFPS\<close>; after it the divisor is
  \<open>int(math.Round(m.MaxFPS / frameRate))\<close>, written as \<open>uint8(divisor)\<close>, and the rate
  returned is \<open>m.MaxFPS / float64(divisor)\<close> with the error of the write.
\<close>

definition SetFramerate :: "MI48 \<Rightarrow> float64 \<Rightarrow> port \<Rightarrow> (float64 \<times> unit result) \<times> port" where
  "SetFramerate m frameRate p =
     (if feq frameRate (Finite 0) \<or> fless (MaxFPS m) frameRate then
        ((Finite 0, Err InvalidFrameRate), p)
      else
        (let optimalDivisor = fdiv (MaxFPS m) frameRate in
         case int_of_float (Round optimalDivisor) of
           None \<Rightarrow> ((NaN, Err UnspecifiedConversion), p)
         | Some divisor \<Rightarrow>
             (case writeRegister FRAME_RATE (word_of_int divisor) p of
                (err, p') \<Rightarrow> ((fdiv (MaxFPS m) (float_of_int divisor), err), p'))))"

section \<open>Streaming Engine\<close>

text \<open>
  \<open>image.NewGray16(sensorSizes[m.cameraType])\<close>: two bytes per pixel; a type code
  that is not in the map gives the empty rectangle.
\<close>

record frame =
  Rect :: "nat \<times> nat"
  Pix :: bytes

definition NewGray16 :: "u8 \<Rightarrow> frame" where
  "NewGray16 t =
     (case sensorSizes t of
        None \<Rightarrow> \<lparr>Rect = (0, 0), Pix = []\<rparr>
      | Some (w, h) \<Rightarrow> \<lparr>Rect = (w, h), Pix = replicate (2 * w * h) (CHR 0x00)\<rparr>)"

text \<open>The channel \<open>videoStream\<close>: the frames sent and not yet received (at most 10),
  and whether it was closed. The consumer is not part of the model.\<close>

record chan =
  chan_buf :: "frame list"
  chan_closed :: bool

definition close_chan :: "chan \<Rightarrow> chan" where
  "close_chan ch = ch\<lparr>chan_closed := True\<rparr>"

text \<open>
  How the goroutine of \<open>StartStream\<close> ends: it returns (the deferred \<open>close\<close> runs)
  because the context is done, because \<open>readPacket\<close> failed or because a frame was
  too short; or it never returns, waiting for the mutex or for room in the channel.
\<close>

datatype stream_exit =
    Cancelled | PacketFailed error | InvalidFrame | WaitsForLock | WaitsForConsumer

text \<open>
  The loop of the goroutine. \<open>cancelled i\<close> says whether the context is done when the
  \<open>select\<close> of iteration \<open>i\<close> looks at it. The body takes \<open>readMutex\<close> and has no
  \<open>Unlock\<close>.
\<close>

lemma Lock_pending: "Lock p = Some p1 \<Longrightarrow> pending p1 = pending p"
  by (auto simp: Lock_def log_event_def split: if_splits)

lemma locked_read_consumes:
  "Lock p = Some p1 \<Longrightarrow> (Inr x, p2) = readPacket p1 \<Longrightarrow>
   length (pending p2) < length (pending p)"
  using readPacket_consumes [of p1 x p2] Lock_pending [of p p1] by simp

function stream_loop ::
  "MI48 \<Rightarrow> (nat \<Rightarrow> bool) \<Rightarrow> nat \<Rightarrow> port \<Rightarrow> chan \<Rightarrow> stream_exit \<times> port \<times> chan" where
  "stream_loop m cancelled i p ch =
     (if cancelled i then (Cancelled, p, close_chan ch)
      else
        (case Lock p of
           None \<Rightarrow> (WaitsForLock, p, ch)
         | Some p1 \<Rightarrow>
             (case readPacket p1 of
                (Inl e, p2) \<Rightarrow> (PacketFailed e, p2, close_chan ch)
              | (Inr (packetType, data), p2) \<Rightarrow>
                  (if packetType = ''GFRA'' then
                     (let frame = NewGray16 (cameraType m) in
                      if length data < length (Pix frame) then (InvalidFrame, p2, close_chan ch)
                      else
                        (let frame' = frame\<lparr>Pix := drop (length data - length (Pix frame)) data\<rparr> in
                         if length (chan_buf ch) < 10 then
                           stream_loop m cancelled (i + 1) p2
                             (ch\<lparr>chan_buf := chan_buf ch @ [frame']\<rparr>)
                         else (WaitsForConsumer, p2, ch)))
                   else stream_loop m cancelled (i + 1) p2 ch))))"
  by pat_completeness auto
termination
  by (relation "measure (\<lambda>(m, cancelled, i, p, ch). length (pending p))")
     (auto intro: locked_read_consumes)

declare stream_loop.simps [simp del]


text \<open>
  \<open>StartStream\<close>: the frame-mode register is written; on success the goroutine runs
  on a fresh channel of capacity 10 (\<open>stream_goroutine\<close>).
\<close>

definition StartStream :: "port \<Rightarrow> unit result \<times> port" where
  "StartStream p =
     (case writeRegister FRAME_MODE CONTNIUOUS_STREAM p of
        (Err e, p') \<Rightarrow> (Err (StartStreamFailed e), p')
      | (Hang, p') \<Rightarrow> (Hang, p')
      | (Ok _, p') \<Rightarrow> (Ok (), p'))"

definition stream_goroutine :: "MI48 \<Rightarrow> (nat \<Rightarrow> bool) \<Rightarrow> port \<Rightarrow> stream_exit \<times> port \<times> chan" where
  "stream_goroutine m cancelled p =
     stream_loop m cancelled 0 p \<lparr>chan_buf = [], chan_closed = False\<rparr>"

section \<open>Properties of the Frame Codec\<close>

lemma decode_length_field:
  assumes "n < 65536"
  shows "\<exists>l w. DecodeString (fmtX 4 n) = Inr l \<and> Uint16 l = Some w \<and> unat w = n"
proof -
  define d3 d2 d1 d0 where "d3 = n div 4096" and "d2 = n div 256 mod 16"
    and "d1 = n div 16 mod 16" and "d0 = n mod 16"
  let ?b0 = "of_nat (d3 * 16 + d2) :: u8"
  let ?b1 = "of_nat (d1 * 16 + d0) :: u8"
  from assms have d: "d3 < 16" "d2 < 16" "d1 < 16" "d0 < 16"
    by (simp_all add: d3_def d2_def d1_def d0_def)
  have f: "fmtX 4 n = [hexdigit d3, hexdigit d2, hexdigit d1, hexdigit d0]"
    by (simp add: fmtX4 [OF assms] d3_def d2_def d1_def d0_def)
  have dec: "DecodeString (fmtX 4 n) = Inr [?b0, ?b1]"
    using d by (simp add: f fromHexChar_hexdigit)
  have "n div 4096 = n div 256 div 16"
    by (simp add: div_mult2_eq [symmetric])
  then have e0: "d3 * 16 + d2 = n div 256"
    by (simp add: d3_def d2_def)
  have "n mod 256 = 16 * (n div 16 mod 16) + n mod 16"
    using mod_mult2_eq [of n 16 16] by simp
  then have e1: "d1 * 16 + d0 = n mod 256"
    by (simp add: d1_def d0_def)
  from assms have "n div 256 < 256" by simp
  then have u0: "unat ?b0 = n div 256"
    by (simp add: e0 unat_of_nat)
  have u1: "unat ?b1 = n mod 256"
    by (simp add: e1 unat_of_nat)
  have "unat (push_bit 8 (ucast ?b0) OR ucast ?b1 :: u16) = n div 256 * 256 + n mod 256"
    unfolding Uint16_unat u0 u1 ..
  then have "unat (push_bit 8 (ucast ?b0) OR ucast ?b1 :: u16) = n"
    by simp
  with dec show ?thesis by simp
qed


lemma skip_blocks_at_marker: "take 4 s = marker \<Longrightarrow> skip_blocks s = s"
  by (subst skip_blocks.simps) simp

lemma command_frame_decodes:
  assumes "length tag = 4" and "4 \<le> length body" and "length body + 4 < 65536"
    and "pending p = command_frame (tag @ body)"
  shows "fst (readPacket p) = Inr (tag, take (length body - 4) body) \<and>
         pending (snd (readPacket p)) = []"
proof -
  define n where "n = length (tag @ body)"
  from assms have n: "n < 65536" "8 \<le> n" "n = length body + 4" by (simp_all add: n_def)
  from decode_length_field [OF n(1)] obtain l w where
    dec: "DecodeString (fmtX 4 n) = Inr l" and u: "Uint16 l = Some w" and w: "unat w = n"
    by blast
  have len4: "length (fmtX 4 n) = 4"
    by (simp add: fmtX4 [OF n(1)])
  have pend: "pending p = marker @ fmtX 4 n @ tag @ body"
    by (simp add: assms(4) command_frame_def marker_def n_def)
  have m4: "length marker = 4" by (simp add: marker_def)
  have sk: "skip_blocks (marker @ fmtX 4 n @ tag @ body) = marker @ fmtX 4 n @ tag @ body"
    by (rule skip_blocks_at_marker) (simp add: m4)
  from n(2) w have "8 \<le> w"
    by (simp add: word_le_nat_alt)
  then have sub: "unat (w - 8) = length body - 4"
    using w n(3) by (simp add: unat_sub)
  have "frame_of_stream (pending p) = Some (tag, take (length body - 4) body, [])"
    using assms(1,2) dec u sub len4 m4
    by (simp add: frame_of_stream_def pend sk Let_def)
  with readPacket_frame [of p] show ?thesis by simp
qed

section \<open>Traces of the Transaction Engine\<close>

text \<open>
  What a call did with the port is read off the trace. \<open>reads_only p p'\<close>: between
  the two states the port was only read, and the mutex and the write side are as before.
\<close>

definition reads_only :: "port \<Rightarrow> port \<Rightarrow> bool" where
  "reads_only p p' \<longleftrightarrow>
     (\<exists>ns. trace p' = trace p @ map EvRead ns) \<and> locked p' = locked p \<and> writable p' = writable p"

lemma reads_only_refl: "reads_only p p"
  by (auto simp: reads_only_def intro: exI [of _ "[]"])

lemma reads_only_trans: "reads_only p q \<Longrightarrow> reads_only q r \<Longrightarrow> reads_only p r"
  unfolding reads_only_def
  by (metis append.assoc map_append)

lemma reads_only_step:
  "trace q = trace p @ [EvRead n] \<Longrightarrow> locked q = locked p \<Longrightarrow> writable q = writable p \<Longrightarrow>
   reads_only p q"
  unfolding reads_only_def by (auto intro: exI [of _ "[n]"])

lemma ReadFull_reads_only: "ReadFull p n old = (buf, err, p') \<Longrightarrow> reads_only p p'"
  by (auto simp: ReadFull_def log_event_def split: if_splits
           intro: reads_only_refl reads_only_step)

lemma Read_reads_only: "Read p n = (buf, err, p') \<Longrightarrow> reads_only p p'"
  by (auto simp: Read_def log_event_def split: if_splits intro: reads_only_step)

lemma header_loop_reads_only: "header_loop header err p = (r, p') \<Longrightarrow> reads_only p p'"
proof (induction header err p rule: header_loop.induct)
  case (1 header err p)
  show ?case
  proof (cases "take 4 header \<noteq> marker \<and> err = None")
    case True
    obtain h1 e1 p1 where rf: "ReadFull p 12 header = (h1, e1, p1)"
      by (cases "ReadFull p 12 header")
    with True "1.prems" have rec: "header_loop h1 e1 p1 = (r, p')"
      by (simp add: header_loop.simps [of header])
    from True rf have "reads_only p1 p'"
      by (intro "1.IH" [OF _ _ rf [symmetric] refl rec]) simp_all
    with ReadFull_reads_only [OF rf] show ?thesis
      by (rule reads_only_trans)
  next
    case False
    with "1.prems" have "p' = p"
      by (auto simp: header_loop.simps [of header] split: option.splits if_splits)
    then show ?thesis by (simp add: reads_only_refl)
  qed
qed

lemma readPacket_reads_only:
  assumes "readPacket p = (r, p')" shows "reads_only p p'"
proof -
  obtain r1 p1 where hl: "header_loop (replicate 12 (CHR 0x00)) None p = (r1, p1)"
    by (cases "header_loop (replicate 12 (CHR 0x00)) None p")
  note a = header_loop_reads_only [OF hl]
  show ?thesis
  proof (cases r1)
    case (Inl e)
    with assms hl have "p' = p1" by (simp add: readPacket_def)
    with a show ?thesis by simp
  next
    case (Inr header)
    show ?thesis
    proof (cases "DecodeString (take 4 (drop 4 header))")
      case (Inl e)
      with assms hl Inr have "p' = p1" by (simp add: readPacket_def)
      with a show ?thesis by simp
    next
      case l: (Inr l)
      show ?thesis
      proof (cases "Uint16 l")
        case None
        with assms hl Inr l have "p' = p1" by (simp add: readPacket_def)
        with a show ?thesis by simp
      next
        case (Some w)
        obtain d e2 p2 where rf: "ReadFull p1 (unat (w - 8)) (replicate (unat (w - 8)) (CHR 0x00)) = (d, e2, p2)"
          by (cases "ReadFull p1 (unat (w - 8)) (replicate (unat (w - 8)) (CHR 0x00))")
        note b = reads_only_trans [OF a ReadFull_reads_only [OF rf]]
        show ?thesis
        proof (cases e2)
          case e: (Some e)
          with assms hl Inr l Some rf have "p' = p2" by (simp add: readPacket_def)
          with b show ?thesis by simp
        next
          case None
          obtain c e3 p3 where rd: "Read p2 4 = (c, e3, p3)" by (cases "Read p2 4")
          with assms hl Inr l Some rf None have "p' = p3"
            by (cases e3) (simp_all add: readPacket_def)
          with reads_only_trans [OF b Read_reads_only [OF rd]] show ?thesis by simp
        qed
      qed
    qed
  qed
qed

lemma sendCommand_loop_reads_only:
  "sendCommand_loop cmdType packetType data err p = (r, p') \<Longrightarrow> reads_only p p'"
proof (induction cmdType packetType data err p rule: sendCommand_loop.induct)
  case (1 cmdType packetType data err p)
  show ?case
  proof (cases "packetType \<noteq> cmdType \<and> err = None")
    case True
    obtain r1 p1 where rp: "readPacket p = (r1, p1)" by (cases "readPacket p")
    show ?thesis
    proof (cases r1)
      case (Inl e)
      with True rp "1.prems" have rec: "sendCommand_loop cmdType [] [] (Some e) p1 = (r, p')"
        by (simp add: sendCommand_loop.simps [of cmdType packetType])
      from True rp Inl have "reads_only p1 p'"
        by (intro "1.IH"(1) [OF _ _ _ _ rec]) simp_all
      with readPacket_reads_only [OF rp] show ?thesis by (rule reads_only_trans)
    next
      case (Inr td)
      obtain t d where td: "td = (t, d)" by (cases td)
      with Inr True rp "1.prems" have rec: "sendCommand_loop cmdType t d None p1 = (r, p')"
        by (simp add: sendCommand_loop.simps [of cmdType packetType])
      from True rp Inr td have "reads_only p1 p'"
        by (intro "1.IH"(2) [OF _ _ _ _ _ rec]) simp_all
      with readPacket_reads_only [OF rp] show ?thesis by (rule reads_only_trans)
    qed
  next
    case False
    with "1.prems" have "p' = p"
      by (auto simp: sendCommand_loop.simps [of cmdType packetType] split: option.splits if_splits)
    then show ?thesis by (simp add: reads_only_refl)
  qed
qed


text \<open>The frames written to the transport, in order.\<close>

fun writes_of :: "event list \<Rightarrow> bytes list" where
  "writes_of [] = []"
| "writes_of (EvWrite bs # es) = bs # writes_of es"
| "writes_of (EvRead n # es) = writes_of es"
| "writes_of (EvLock # es) = writes_of es"
| "writes_of (EvUnlock # es) = writes_of es"


lemma writes_of_append: "writes_of (es @ fs) = writes_of es @ writes_of fs"
  by (induction es rule: writes_of.induct) simp_all

lemma writes_of_reads: "writes_of (map EvRead ns) = []"
  by (induction ns) simp_all

lemma sendCommand_trace:
  assumes "4 \<le> length cmd" and "writable p" and "\<not> locked p"
    and "sendCommand cmd p = (r, p')"
  shows "\<exists>ns. trace p' = trace p @ [EvWrite (command_frame cmd), EvLock] @ map EvRead ns @ [EvUnlock]"
    and "\<not> locked p'" and "writable p'" and "r \<noteq> Hang"
proof -
  define p2 where "p2 = log_event EvLock ((log_event (EvWrite (command_frame cmd)) p)\<lparr>locked := True\<rparr>)"
  obtain r3 p3 where lp: "sendCommand_loop (take 4 cmd) [] [] None p2 = (r3, p3)"
    by (cases "sendCommand_loop (take 4 cmd) [] [] None p2")
  from assms lp have p': "p' = Unlock p3" and r: "r = (case r3 of Inl e \<Rightarrow> Err e | Inr d \<Rightarrow> Ok d)"
    by (auto simp: sendCommand_def Write_def Lock_def Let_def p2_def log_event_def split: sum.splits)
  from sendCommand_loop_reads_only [OF lp] obtain ns where
    "trace p3 = trace p2 @ map EvRead ns" "writable p3 = writable p2"
    by (auto simp: reads_only_def)
  then have "trace p' = trace p @ [EvWrite (command_frame cmd), EvLock] @ map EvRead ns @ [EvUnlock]"
    and w: "writable p' = writable p"
    by (simp_all add: p' Unlock_def p2_def log_event_def)
  then show "\<exists>ns. trace p' = trace p @ [EvWrite (command_frame cmd), EvLock] @ map EvRead ns @ [EvUnlock]"
    by blast
  show "\<not> locked p'" by (simp add: p' Unlock_def log_event_def)
  from w assms(2) show "writable p'" by simp
  from r show "r \<noteq> Hang" by (cases r3) simp_all
qed

lemma sendCommand_Ok:
  assumes "sendCommand cmd p = (Ok d, p')"
  shows "4 \<le> length cmd" and "writable p" and "\<not> locked p"
  using assms
  by (auto simp: sendCommand_def Write_def Lock_def Let_def log_event_def
        split: if_splits prod.splits sum.splits)

lemma sendCommand_Ok_writes:
  assumes "sendCommand cmd p = (Ok d, p')"
  shows "writes_of (trace p') = writes_of (trace p) @ [command_frame cmd]"
proof -
  from sendCommand_trace(1) [OF sendCommand_Ok [OF assms] assms] obtain ns where
    "trace p' = trace p @ [EvWrite (command_frame cmd), EvLock] @ map EvRead ns @ [EvUnlock]" ..
  then show ?thesis
    by (simp add: writes_of_append writes_of_reads)
qed







lemma writeRegister_Ok_writes:
  assumes "writeRegister reg v p = (Ok u, p')"
  shows "writes_of (trace p') = writes_of (trace p) @ [command_frame (wreg_cmd (Address reg) v)]"
proof -
  from assms obtain d where "sendCommand (wreg_cmd (Address reg) v) p = (Ok d, p')"
    by (auto simp: writeRegister_def split: if_splits prod.splits result.splits)
  then show ?thesis by (rule sendCommand_Ok_writes)
qed

lemma SetNETD_Ok_writes:
  assumes "SetNETD c p = (Ok u, p')"
  shows "writes_of (trace p') = writes_of (trace p) @
     map command_frame
       [wreg_cmd (Address NETD_FACTOR) (Factor c), wreg_cmd (Address NETD_PIXEL_Y) (Y c),
        wreg_cmd (Address NETD_PIXEL_X) (X c), wreg_cmd (Address NETD_CONFIG) (netd_config c)]"
proof -
  from assms obtain p1 p2 p3 where
    w1: "writeRegister NETD_FACTOR (Factor c) p = (Ok (), p1)" and
    w2: "writeRegister NETD_PIXEL_Y (Y c) p1 = (Ok (), p2)" and
    w3: "writeRegister NETD_PIXEL_X (X c) p2 = (Ok (), p3)" and
    w4: "writeRegister NETD_CONFIG (netd_config c) p3 = (Ok (), p')"
    by (auto simp: SetNETD_def split: prod.splits result.splits)
  from writeRegister_Ok_writes [OF w1] writeRegister_Ok_writes [OF w2]
    writeRegister_Ok_writes [OF w3] writeRegister_Ok_writes [OF w4]
  show ?thesis by simp
qed

lemma netd_config_bits:
  "(bit (netd_config c) 0 \<longleftrightarrow> Enabled c) \<and> (bit (netd_config c) 1 \<longleftrightarrow> Enabled c \<and> RowInFrame c)
   \<and> netd_config c AND 0xFC = 0"
  by (simp add: netd_config_def)

section \<open>Lock discipline and the streaming loop\<close>







section \<open>Evaluation on concrete streams\<close>

lemmas eval_codec = readPacket_def header_loop.simps ReadFull_def Read_def log_event_def
  marker_def fromHexChar_def command_frame_def fmtX_def hexdigits.simps hexdigit_def

lemmas eval_engine = sendCommand_def sendCommand_loop.simps Write_def Lock_def Unlock_def
  writeRegister_def readRegister_def readRegister_loop.simps rreg_cmd_def wreg_cmd_def

lemma floor_numeral_div:
  "\<lfloor>(numeral a :: rat) / numeral b\<rfloor> = numeral a div numeral b"
  using floor_divide_of_int_eq [of "numeral a" "numeral b", where ?'a = rat] by simp

lemma floor_one_div:
  "\<lfloor>(1 :: rat) / numeral b\<rfloor> = 1 div numeral b"
  using floor_divide_of_int_eq [of 1 "numeral b", where ?'a = rat] by simp

lemmas eval_float = floor_one_div round64_def round_pos_def norm_up.simps norm_down.simps
  rne_def Let_def floor_numeral_div fneg_def Abs_def Round_def trunc_def int_of_float_def
  uint8_of_float_def float_of_int_def

text \<open>The constants of the driver as \<open>float64\<close>: 0.05 is
  \<open>0x3FA999999999999A\<close>, 25.5 is exact, 28.57 is \<open>0x403C91EB851EB852\<close>.\<close>

lemma float64_constants:
  "round64 (1 / 20) = Finite (3602879701896397 / 2 ^ 56) \<and>
   round64 (51 / 2) = Finite (51 / 2) \<and>
   round64 (2857 / 100) = Finite (4020870042311721 / 2 ^ 47)"
  by (simp add: eval_float)

lemma readPacket_bad_length:
  assumes "12 \<le> length (skip_blocks (pending p))"
    and "DecodeString (take 4 (drop 4 (skip_blocks (pending p)))) = Inl e"
  shows "fst (readPacket p) = Inl (DecodeLengthFailed e)"
proof -
  obtain r p1 where hl: "header_loop (replicate 12 (CHR 0x00)) None p = (r, p1)"
    by (cases "header_loop (replicate 12 (CHR 0x00)) None p")
  from header_loop_found [OF no_marker_init assms(1)] hl
  have r: "r = Inr (take 12 (skip_blocks (pending p)))" by simp
  have "take 4 (drop 4 (take 12 (skip_blocks (pending p)))) = take 4 (drop 4 (skip_blocks (pending p)))"
    by (simp add: drop_take)
  with assms(2) hl r show ?thesis
    by (simp add: readPacket_def)
qed

section \<open>Properties of the Frame Codec: the claims\<close>

text \<open>
  C1 (as the code has it). For a type tag of four bytes and a body of at least four
  bytes (a command of at most 65535 bytes), decoding exactly the bytes of the command
  frame that \<open>sendCommand\<close> builds recovers the type tag; the payload is the body
  without its last four bytes, which the decoder consumes as the trailer: the length
  field written is \<open>len(cmd)\<close>, and \<open>readPacket\<close> takes the payload to be 8 bytes
  shorter than the length field. The whole frame is consumed.
\<close>

theorem command_frame_roundtrip:
  assumes "length tag = 4" and "4 \<le> length body" and "length body + 4 < 65536"
    and "pending p = command_frame (tag @ body)"
  shows "fst (readPacket p) = Inr (tag, take (length body - 4) body) \<and>
         pending (snd (readPacket p)) = []"
  using assms by (rule command_frame_decodes)

theorem command_frame_roundtrip_witness:
  "length ''WREG'' = 4 \<and> 4 \<le> length ''B102XXXX'' \<and> length ''B102XXXX'' + 4 < (65536 :: nat) \<and>
   fst (readPacket \<lparr>pending = command_frame (''WREG'' @ ''B102XXXX''), writable = True,
                     locked = False, trace = []\<rparr>) = Inr (''WREG'', ''B102'') \<and>
   pending (snd (readPacket \<lparr>pending = command_frame (''WREG'' @ ''B102XXXX''), writable = True,
                     locked = False, trace = []\<rparr>)) = []"
  using command_frame_roundtrip [of "''WREG''" "''B102XXXX''"
      "\<lparr>pending = command_frame (''WREG'' @ ''B102XXXX''), writable = True,
        locked = False, trace = []\<rparr>"]
  by simp

text \<open>
  The claim as stated fails: the frame of the read command for register \<open>0xBA\<close>
  decodes to the payload \<open>BAXX\<close>, not to the body \<open>BAXXXXXX\<close>.
\<close>

theorem command_frame_roundtrip_counterexample:
  "fst (readPacket \<lparr>pending = command_frame (''RREG'' @ ''BAXXXXXX''), writable = True,
                     locked = False, trace = []\<rparr>) = Inr (''RREG'', ''BAXX'') \<and>
   ''BAXX'' \<noteq> ''BAXXXXXX''"
  by (simp add: eval_codec replicate_unfold)

text \<open>
  C3 (as the code has it). Let \<open>s\<close> be the stream from the first 12-byte block that
  starts with the marker. \<open>readPacket\<close> returns an error when the header read is short
  (fewer than 12 bytes are left), when the length field is not valid hex (the error of
  \<open>hex.DecodeString\<close>, wrapped), and when the payload read is short. A length field
  below 8 is not rejected: the payload length is the field minus 8 in \<open>uint16\<close>, that
  is the field plus 65528, and with that many payload bytes and the trailer in the
  stream the packet is returned.
\<close>

theorem readPacket_decode_errors:
  assumes "s = skip_blocks (pending p)"
  shows "(length s < 12 \<longrightarrow> isl (fst (readPacket p))) \<and>
         (\<forall>e. 12 \<le> length s \<and> DecodeString (take 4 (drop 4 s)) = Inl e \<longrightarrow>
              fst (readPacket p) = Inl (DecodeLengthFailed e)) \<and>
         (\<forall>l w n. 12 \<le> length s \<and> DecodeString (take 4 (drop 4 s)) = Inr l \<and>
              Uint16 l = Some w \<and> n = (if 8 \<le> unat w then unat w - 8 else unat w + 65528) \<longrightarrow>
              (length s < 12 + n \<longrightarrow> isl (fst (readPacket p))) \<and>
              (12 + n + 4 \<le> length s \<longrightarrow>
                 fst (readPacket p) = Inr (take 4 (drop 8 s), take n (drop 12 s)) \<and>
                 pending (snd (readPacket p)) = drop (12 + n + 4) s))"
proof (intro conjI allI impI)
  assume "length s < 12"
  then show "isl (fst (readPacket p))"
    using readPacket_frame [of p] by (simp add: frame_of_stream_def assms Let_def)
next
  fix e
  assume "12 \<le> length s \<and> DecodeString (take 4 (drop 4 s)) = Inl e"
  then show "fst (readPacket p) = Inl (DecodeLengthFailed e)"
    unfolding assms by (intro readPacket_bad_length) simp_all
next
  fix l w n
  assume a: "12 \<le> length s \<and> DecodeString (take 4 (drop 4 s)) = Inr l \<and>
              Uint16 l = Some w \<and> n = (if 8 \<le> unat w then unat w - 8 else unat w + 65528)"
  have "unat (8 :: u16) = 8" by simp
  then have n: "unat (w - 8) = n"
    using a unsigned_less [of w, where ?'a = nat] by (simp add: unat_sub_if_size word_size)
  {
    assume "length s < 12 + n"
    then show "isl (fst (readPacket p))"
      using readPacket_frame [of p] a n by (simp add: frame_of_stream_def assms Let_def)
  next
    assume "12 + n + 4 \<le> length s"
    then have "frame_of_stream (pending p) = Some (take 4 (drop 8 s), take n (drop 12 s), drop (12 + n + 4) s)"
      using a n by (simp add: frame_of_stream_def assms [symmetric] Let_def)
    with readPacket_frame [of p]
    show "fst (readPacket p) = Inr (take 4 (drop 8 s), take n (drop 12 s))"
      and "pending (snd (readPacket p)) = drop (12 + n + 4) s"
      by simp_all
  }
qed

theorem readPacket_decode_errors_witness:
  "isl (fst (readPacket \<lparr>pending = ''   #000'', writable = True, locked = False, trace = []\<rparr>)) \<and>
   fst (readPacket \<lparr>pending = ''   #00ZZGFRAabcdXXXX'', writable = True, locked = False, trace = []\<rparr>)
     = Inl (DecodeLengthFailed (InvalidByteError (CHR ''Z''))) \<and>
   isl (fst (readPacket \<lparr>pending = ''   #000CGFRAab'', writable = True, locked = False, trace = []\<rparr>)) \<and>
   fst (readPacket \<lparr>pending = ''   #000CGFRAabcdXXXX'', writable = True, locked = False, trace = []\<rparr>)
     = Inr (''GFRA'', ''abcd'')"
  using
    readPacket_decode_errors [OF refl,
      of "\<lparr>pending = ''   #000'', writable = True, locked = False, trace = []\<rparr>"]
    readPacket_decode_errors [OF refl,
      of "\<lparr>pending = ''   #00ZZGFRAabcdXXXX'', writable = True, locked = False, trace = []\<rparr>"]
    readPacket_decode_errors [OF refl,
      of "\<lparr>pending = ''   #000CGFRAab'', writable = True, locked = False, trace = []\<rparr>"]
    readPacket_decode_errors [OF refl,
      of "\<lparr>pending = ''   #000CGFRAabcdXXXX'', writable = True, locked = False, trace = []\<rparr>"]
  by (simp add: skip_blocks.simps marker_def fromHexChar_def)

text \<open>
  The claim as stated fails: the length field \<open>0000\<close> is taken as a payload of 65528
  bytes and the packet is returned without an error.
\<close>

theorem readPacket_short_length_counterexample:
  "fst (readPacket \<lparr>pending = ''   #0000GFRA'' @ replicate 65528 (CHR ''A'') @ ''XXXX'',
                     writable = True, locked = False, trace = []\<rparr>)
     = Inr (''GFRA'', replicate 65528 (CHR ''A''))"
  using no_marker_init
  by (simp add: readPacket_def header_loop.simps ReadFull_def Read_def log_event_def marker_def
        fromHexChar_def)

section \<open>Properties of register access\<close>

text \<open>
  C8. \<open>writeRegister\<close> on a read-only register descriptor fails with the read-only
  error, whatever the value, and leaves the transport as it was: nothing is written,
  nothing is read, the mutex is not touched.
\<close>

theorem writeRegister_read_only:
  "ReadOnly reg \<Longrightarrow> writeRegister reg v p = (Err RegisterReadOnly, p)"
  by (simp add: writeRegister_def)

theorem writeRegister_read_only_witness:
  "ReadOnly SENXOR_TYPE \<and>
   writeRegister SENXOR_TYPE 7 \<lparr>pending = [], writable = True, locked = False, trace = []\<rparr>
     = (Err RegisterReadOnly, \<lparr>pending = [], writable = True, locked = False, trace = []\<rparr>)"
  using writeRegister_read_only [of SENXOR_TYPE 7
      "\<lparr>pending = [], writable = True, locked = False, trace = []\<rparr>"]
  by (simp add: SENXOR_TYPE_def)




text \<open>
  C7 (as the code has it). When \<open>SetNETD\<close> succeeds it has written exactly four
  register-write frames, in the order factor, pixel Y, pixel X, config byte. In the
  config byte bit 0 is \<open>Enabled\<close>, bit 1 is \<open>Enabled\<close> and \<open>RowInFrame\<close> together, and
  the other bits are clear.
\<close>

theorem SetNETD_register_writes:
  assumes "SetNETD c p = (Ok (), p')"
  shows "writes_of (trace p') = writes_of (trace p) @
           map command_frame
             [wreg_cmd (Address NETD_FACTOR) (Factor c), wreg_cmd (Address NETD_PIXEL_Y) (Y c),
              wreg_cmd (Address NETD_PIXEL_X) (X c),
              wreg_cmd (Address NETD_CONFIG) (netd_config c)] \<and>
         (bit (netd_config c) 0 \<longleftrightarrow> Enabled c) \<and>
         (bit (netd_config c) 1 \<longleftrightarrow> Enabled c \<and> RowInFrame c) \<and>
         netd_config c AND 0xFC = 0"
  using SetNETD_Ok_writes [OF assms] netd_config_bits [of c] by simp

theorem SetNETD_register_writes_witness:
  "fst (SetNETD \<lparr>Enabled = True, RowInFrame = True, Factor = 0x14, X = 3, Y = 5\<rparr>
         \<lparr>pending = ''   #0008WREGXXXX   #0008WREGXXXX   #0008WREGXXXX   #0008WREGXXXX'',
          writable = True, locked = False, trace = []\<rparr>) = Ok () \<and>
   writes_of (trace (snd (SetNETD \<lparr>Enabled = True, RowInFrame = True, Factor = 0x14, X = 3, Y = 5\<rparr>
         \<lparr>pending = ''   #0008WREGXXXX   #0008WREGXXXX   #0008WREGXXXX   #0008WREGXXXX'',
          writable = True, locked = False, trace = []\<rparr>)))
     = [''   #000CWREGD514XXXX'', ''   #000CWREGD705XXXX'', ''   #000CWREGD603XXXX'',
        ''   #000CWREGD403XXXX'']"
proof -
  let ?c = "\<lparr>Enabled = True, RowInFrame = True, Factor = 0x14, X = 3, Y = 5\<rparr>"
  let ?p = "\<lparr>pending = ''   #0008WREGXXXX   #0008WREGXXXX   #0008WREGXXXX   #0008WREGXXXX'',
             writable = True, locked = False, trace = []\<rparr>"
  have e: "fst (SetNETD ?c ?p) = Ok ()"
    by (simp add: SetNETD_def eval_codec eval_engine netd_config_def
          NETD_FACTOR_def NETD_PIXEL_X_def NETD_PIXEL_Y_def NETD_CONFIG_def replicate_unfold)
  then have "SetNETD ?c ?p = (Ok (), snd (SetNETD ?c ?p))"
    by (simp add: prod_eq_iff)
  from SetNETD_register_writes [OF this]
  have "writes_of (trace (snd (SetNETD ?c ?p))) =
          map command_frame
            [wreg_cmd (Address NETD_FACTOR) (Factor ?c), wreg_cmd (Address NETD_PIXEL_Y) (Y ?c),
             wreg_cmd (Address NETD_PIXEL_X) (X ?c),
             wreg_cmd (Address NETD_CONFIG) (netd_config ?c)]"
    by simp
  also have "\<dots> = [''   #000CWREGD514XXXX'', ''   #000CWREGD705XXXX'', ''   #000CWREGD603XXXX'',
        ''   #000CWREGD403XXXX'']"
    by (simp add: wreg_cmd_def command_frame_def fmtX_def hexdigits.simps hexdigit_def
          replicate_unfold netd_config_def
          NETD_FACTOR_def NETD_PIXEL_X_def NETD_PIXEL_Y_def NETD_CONFIG_def)
  finally show ?thesis
    using e by simp
qed

text \<open>
  The claim as stated fails for \<open>Enabled = false\<close>, \<open>RowInFrame = true\<close>: the config
  byte is 0, so its bit 1 is not \<open>RowInFrame\<close>.
\<close>

theorem SetNETD_config_counterexample:
  "RowInFrame \<lparr>Enabled = False, RowInFrame = True, Factor = 0x14, X = 0, Y = 0\<rparr> \<and>
   netd_config \<lparr>Enabled = False, RowInFrame = True, Factor = 0x14, X = 0, Y = 0\<rparr> = 0 \<and>
   \<not> bit (netd_config \<lparr>Enabled = False, RowInFrame = True, Factor = 0x14, X = 0, Y = 0\<rparr>) 1"
  by (simp add: netd_config_def)

section \<open>Properties of the Arbitration Layer and the Streaming Engine\<close>






section \<open>Properties of the Device Session\<close>



text \<open>
  C4: the code at two targets, on a session with \<open>MaxFPS = 25.5\<close> and a device that
  acknowledges the write. The target -1.0 is outside \<open>0 < target \<le> MaxFPS\<close>, and no
  error is returned: the guard tests \<open>frameRate == 0\<close>, the divisor is -26, the byte
  written is \<open>0xE6\<close> (230) and the rate returned is negative. The target 0.0625 is
  inside the range: the divisor is 408, the byte written is \<open>0x98\<close> (152), and the
  rate returned, 0.0625, is that of the divisor 408, not of the divisor written.
\<close>

theorem SetFramerate_outside_range:
  "SetFramerate \<lparr>CameraModel = ''MI0801'', SerialInfo = [], FirmwareVersion = [],
                   MaxFPS = Finite (51 / 2), cameraType = 1\<rparr> (Finite (- 1))
      \<lparr>pending = ''   #0008WREGXXXX'', writable = True, locked = False, trace = []\<rparr>
    = ((Finite (- (8833983884457511 / 9007199254740992)), Ok ()),
       \<lparr>pending = [], writable = True, locked = False,
        trace = [EvWrite ''   #000CWREGB4E6XXXX'', EvLock, EvRead 12, EvRead 4, EvUnlock]\<rparr>) \<and>
   SetFramerate \<lparr>CameraModel = ''MI0801'', SerialInfo = [], FirmwareVersion = [],
                   MaxFPS = Finite (51 / 2), cameraType = 1\<rparr> (Finite (1 / 16))
      \<lparr>pending = ''   #0008WREGXXXX'', writable = True, locked = False, trace = []\<rparr>
    = ((Finite (1 / 16), Ok ()),
       \<lparr>pending = [], writable = True, locked = False,
        trace = [EvWrite ''   #000CWREGB498XXXX'', EvLock, EvRead 12, EvRead 4, EvUnlock]\<rparr>)"
proof (rule conjI)
  show "SetFramerate \<lparr>CameraModel = ''MI0801'', SerialInfo = [], FirmwareVersion = [],
                   MaxFPS = Finite (51 / 2), cameraType = 1\<rparr> (Finite (- 1))
      \<lparr>pending = ''   #0008WREGXXXX'', writable = True, locked = False, trace = []\<rparr>
    = ((Finite (- (8833983884457511 / 9007199254740992)), Ok ()),
       \<lparr>pending = [], writable = True, locked = False,
        trace = [EvWrite ''   #000CWREGB4E6XXXX'', EvLock, EvRead 12, EvRead 4, EvUnlock]\<rparr>)"
    by (simp add: SetFramerate_def eval_float eval_codec eval_engine FRAME_RATE_def
          replicate_unfold)
  show "SetFramerate \<lparr>CameraModel = ''MI0801'', SerialInfo = [], FirmwareVersion = [],
                   MaxFPS = Finite (51 / 2), cameraType = 1\<rparr> (Finite (1 / 16))
      \<lparr>pending = ''   #0008WREGXXXX'', writable = True, locked = False, trace = []\<rparr>
    = ((Finite (1 / 16), Ok ()),
       \<lparr>pending = [], writable = True, locked = False,
        trace = [EvWrite ''   #000CWREGB498XXXX'', EvLock, EvRead 12, EvRead 4, EvUnlock]\<rparr>)"
    by (simp add: SetFramerate_def eval_float eval_codec eval_engine FRAME_RATE_def
          replicate_unfold)
qed

text \<open>
  C10: the code for camera type 3, which is in the catalog. \<open>getMaxFPS\<close> answers 0.0
  without an error, and on
  the session with \<open>MaxFPS = 0.0\<close> the call \<open>SetFramerate(-1.0)\<close> does not fail: the
  guard lets the negative target through, the divisor 0 is written to the frame-rate
  register, and the rate returned is \<open>0.0 / 0.0\<close>, NaN, with no error.
\<close>

theorem SetFramerate_unknown_type:
  "cameraTypes 3 = Some ''MI0802'' \<and>
   fst (getMaxFPS \<lparr>pending = ''   #000ARREG03XXXX'', writable = True, locked = False,
                    trace = []\<rparr>) = Ok (Finite 0) \<and>
   SetFramerate \<lparr>CameraModel = ''MI0802'', SerialInfo = [], FirmwareVersion = [],
                   MaxFPS = Finite 0, cameraType = 3\<rparr> (Finite (- 1))
      \<lparr>pending = ''   #0008WREGXXXX'', writable = True, locked = False, trace = []\<rparr>
    = ((NaN, Ok ()),
       \<lparr>pending = [], writable = True, locked = False,
        trace = [EvWrite ''   #000CWREGB400XXXX'', EvLock, EvRead 12, EvRead 4, EvUnlock]\<rparr>)"
proof (intro conjI)
  show "cameraTypes 3 = Some ''MI0802''"
    by (simp add: cameraTypes_def)
  show "fst (getMaxFPS \<lparr>pending = ''   #000ARREG03XXXX'', writable = True, locked = False,
                    trace = []\<rparr>) = Ok (Finite 0)"
    by (simp add: getMaxFPS_def eval_codec eval_engine SENXOR_TYPE_def replicate_unfold)
  show "SetFramerate \<lparr>CameraModel = ''MI0802'', SerialInfo = [], FirmwareVersion = [],
                   MaxFPS = Finite 0, cameraType = 3\<rparr> (Finite (- 1))
      \<lparr>pending = ''   #0008WREGXXXX'', writable = True, locked = False, trace = []\<rparr>
    = ((NaN, Ok ()),
       \<lparr>pending = [], writable = True, locked = False,
        trace = [EvWrite ''   #000CWREGB400XXXX'', EvLock, EvRead 12, EvRead 4, EvUnlock]\<rparr>)"
    by (simp add: SetFramerate_def eval_float eval_codec eval_engine FRAME_RATE_def
          replicate_unfold)
qed

end
